theory Spec2Isabelle
  imports Main "HOL-Library.Char_ord" "HOL-Library.List_Lexorder" "HOL-Library.Multiset"
begin

section \<open>The program model read by the printer\<close>

text \<open>
  The printer \<^verbatim>\<open>PrinterWrittenVariablesAndAuthorization\<close> of
  \<^verbatim>\<open>slither/printers/functions/authorization.py\<close> reads an already built program
  representation. Objects of that representation are modelled as follows.

  Text is a \<^typ>\<open>string\<close>; a character stands for a code point below 256. Strings are
  ordered as Python orders them: by code point, lexicographically, a proper prefix first.

  Function objects live in an arena (\<open>program\<close>); a reference to a Function object is
  its index. What an internal call or a modifier entry points to is a \<open>target\<close>: a
  Function reference, or some object that is not a Function. An index outside the arena
  refers to no Function object.
\<close>

datatype solidity_variable = SolidityVariable (sv_name: string)

text \<open>
  A control-flow node: the answers of \<^verbatim>\<open>contains_if()\<close> and
  \<^verbatim>\<open>contains_require_or_assert()\<close>, the list \<^verbatim>\<open>solidity_variables_read\<close>, and the text
  \<^verbatim>\<open>str(n.expression)\<close>.
\<close>

record node =
  contains_if :: bool
  contains_require_or_assert :: bool
  solidity_variables_read :: "solidity_variable list"
  expression :: string

text \<open>
  An attribute that \<^verbatim>\<open>hasattr\<close> may find missing on the object.
\<close>

datatype 'a attr = Missing | Attr 'a

text \<open>
  A state variable: \<^verbatim>\<open>name\<close> is an optional string; \<open>var_type\<close> is \<open>None\<close> when
  \<^verbatim>\<open>state_var.type\<close> is falsy and \<open>Some s\<close> when it is a type object with
  \<^verbatim>\<open>str(state_var.type) = s\<close>; \<^verbatim>\<open>visibility\<close> and \<^verbatim>\<open>location\<close> may be missing
  attributes, and hold an optional string when present.
\<close>

record state_variable =
  var_name :: "string option"
  var_type :: "string option"
  visibility :: "string option attr"
  location :: "string option attr"

datatype target = Function nat | NotFunction

text \<open>
  A function: its name, the \<^verbatim>\<open>function\<close> attribute of each of its own internal-call
  operations, its \<^verbatim>\<open>modifiers\<close>, its \<^verbatim>\<open>nodes\<close>, and the result of the query
  \<^verbatim>\<open>all_state_variables_written()\<close>.
\<close>

record func =
  fn_name :: string
  internal_calls :: "target list"
  modifiers :: "target list"
  nodes :: "node list"
  all_state_variables_written :: "state_variable list"

type_synonym program = "func list"

record contract =
  contract_name :: string
  state_variables :: "state_variable list"
  contract_functions :: "nat list"

text \<open>
  \<^verbatim>\<open>isinstance(x, Function)\<close>: \<open>resolve\<close> gives the Function object behind a target, if
  there is one.
\<close>

fun resolve :: "program \<Rightarrow> target \<Rightarrow> nat option" where
  "resolve P (Function i) = (if i < length P then Some i else None)"
| "resolve P NotFunction = None"

definition is_Function :: "program \<Rightarrow> target \<Rightarrow> bool" where
  "is_Function P x = (resolve P x \<noteq> None)"

section \<open>Python values and their text\<close>

text \<open>
  A cell of an output row is \<^verbatim>\<open>None\<close> or a string.
\<close>

datatype cell = PyNone | PyStr string

text \<open>
  Truthiness of an optional string: \<^verbatim>\<open>None\<close> and the empty string are falsy.
\<close>

fun truthy :: "string option \<Rightarrow> bool" where
  "truthy None = False"
| "truthy (Some s) = (s \<noteq> [])"

text \<open>
  \<^verbatim>\<open>repr\<close> of a string, for code points below 256: single quotes unless the string has
  a single quote and no double quote; the quote and the backslash are escaped, tab,
  newline and carriage return are written \<^verbatim>\<open>\t\<close>, \<^verbatim>\<open>\n\<close>, \<^verbatim>\<open>\r\<close>, and every
  other non-printable character as \<^verbatim>\<open>\xhh\<close>.
\<close>

definition hex_digit :: "nat \<Rightarrow> char" where
  "hex_digit d = ''0123456789abcdef'' ! d"

definition hex_escape :: "nat \<Rightarrow> string" where
  "hex_escape c = [CHR 0x5C, CHR ''x'', hex_digit (c div 16), hex_digit (c mod 16)]"

definition printable :: "nat \<Rightarrow> bool" where
  "printable c = (32 \<le> c \<and> c \<noteq> 127 \<and> \<not> (128 \<le> c \<and> c \<le> 160) \<and> c \<noteq> 173)"

definition repr_char :: "char \<Rightarrow> char \<Rightarrow> string" where
  "repr_char quote ch =
    (if ch = quote \<or> ch = CHR 0x5C then [CHR 0x5C, ch]
     else if ch = CHR 0x09 then [CHR 0x5C, CHR ''t'']
     else if ch = CHR 0x0A then [CHR 0x5C, CHR ''n'']
     else if ch = CHR 0x0D then [CHR 0x5C, CHR ''r'']
     else if printable (of_char ch) then [ch]
     else hex_escape (of_char ch))"

definition repr_quote :: "string \<Rightarrow> char" where
  "repr_quote s = (if CHR 0x27 \<in> set s \<and> CHR 0x22 \<notin> set s then CHR 0x22 else CHR 0x27)"

definition repr :: "string \<Rightarrow> string" where
  "repr s = [repr_quote s] @ concat (map (repr_char (repr_quote s)) s) @ [repr_quote s]"

fun join :: "string \<Rightarrow> string list \<Rightarrow> string" where
  "join sep [] = []"
| "join sep [x] = x"
| "join sep (x # y # ys) = x @ sep @ join sep (y # ys)"

text \<open>
  \<^verbatim>\<open>str\<close> of a list of strings.
\<close>

definition str_list :: "string list \<Rightarrow> string" where
  "str_list xs = ''['' @ join '', '' (map repr xs) @ '']''"

section \<open>The call-graph closure\<close>

text \<open>
  Modelled from the spec: \<^verbatim>\<open>Function.all_internal_calls()\<close>, which the printer calls and
  which is defined outside the printer's file. The spec describes it as the walk over
  the function's internal-call edges, direct and indirect, guarded by a visited set:
  every function reached is explored once, and the internal-call operations of the
  starting function and of every explored function are collected. \<open>explore\<close> takes the
  pending targets, the functions explored so far and the operations collected so far.
\<close>

function explore :: "program \<Rightarrow> target list \<Rightarrow> nat list \<Rightarrow> target list \<Rightarrow> target list" where
  "explore P [] explored vals = vals"
| "explore P (c # to_explore) explored vals =
    (case resolve P c of
       None \<Rightarrow> explore P to_explore explored vals
     | Some g \<Rightarrow>
        if g \<in> set explored then explore P to_explore explored vals
        else explore P (to_explore @ internal_calls (P ! g)) (g # explored)
               (vals @ internal_calls (P ! g)))"
  by pat_completeness auto
termination
proof (relation "inv_image (less_than <*lex*> less_than)
    (\<lambda>(P, to_explore, explored, vals).
       (card ({..<length P} - set explored), length to_explore))", goal_cases)
  case 1
  show ?case
    by (intro wf_inv_image wf_lex_prod wf_less_than)
next
  case (2 P c to_explore explored vals)
  show ?case by simp
next
  case (3 P c to_explore explored vals g)
  show ?case by simp
next
  case (4 P c to_explore explored vals g)
  from 4(1) have "g < length P"
    by (cases c) (auto split: if_splits)
  with 4(2) have "{..<length P} - set (g # explored) \<subset> {..<length P} - set explored"
    by auto
  then have "card ({..<length P} - set (g # explored)) < card ({..<length P} - set explored)"
    by (intro psubset_card_mono) auto
  then show ?case
    by simp
qed

text \<open>
  Modelled from the spec: \<^verbatim>\<open>Function.all_internal_calls()\<close> itself, the walk started
  at the function: the function is marked as explored, and its own internal-call
  operations are both the first operations collected and the first pending targets.
\<close>

definition all_internal_calls :: "program \<Rightarrow> nat \<Rightarrow> target list" where
  "all_internal_calls P F = explore P (internal_calls (P ! F)) [F] (internal_calls (P ! F))"

section \<open>The printer\<close>

text \<open>
  \<^verbatim>\<open>get_msg_sender_checks\<close>, lines 23 to 31: the list \<^verbatim>\<open>all_functions\<close>, given the
  result \<open>calls\<close> of \<^verbatim>\<open>function.all_internal_calls()\<close>.
\<close>

definition all_functions_with :: "program \<Rightarrow> target list \<Rightarrow> nat \<Rightarrow> nat list" where
  "all_functions_with P calls F =
     List.map_filter (resolve P) calls @ [F] @ List.map_filter (resolve P) (modifiers (P ! F))"

text \<open>
  Lines 36 to 44: the conditional nodes, then those among them that read
  \<^verbatim>\<open>msg.sender\<close>, each rendered as text.
\<close>

definition msg_sender_checks_of_nodes :: "node list \<Rightarrow> string list" where
  "msg_sender_checks_of_nodes all_nodes =
    (let all_conditional_nodes =
           filter (\<lambda>n. contains_if n \<or> contains_require_or_assert n) all_nodes;
         all_conditional_nodes_on_msg_sender =
           map expression
             (filter (\<lambda>n. ''msg.sender'' \<in> set (map sv_name (solidity_variables_read n)))
                all_conditional_nodes)
     in all_conditional_nodes_on_msg_sender)"

text \<open>
  The two filters of lines 37 and 42 taken together: the node is conditional and reads
  \<^verbatim>\<open>msg.sender\<close>.
\<close>

definition qualifies :: "node \<Rightarrow> bool" where
  "qualifies n = ((contains_if n \<or> contains_require_or_assert n) \<and>
      ''msg.sender'' \<in> set (map sv_name (solidity_variables_read n)))"

definition get_msg_sender_checks_with :: "program \<Rightarrow> target list \<Rightarrow> nat \<Rightarrow> string list" where
  "get_msg_sender_checks_with P calls F =
    (let all_functions = all_functions_with P calls F;
         all_nodes' = map (\<lambda>f. nodes (P ! f)) all_functions;
         all_nodes = concat all_nodes'
     in msg_sender_checks_of_nodes all_nodes)"

text \<open>
  The list \<^verbatim>\<open>all_nodes\<close> of line 34 on its own.
\<close>

definition all_nodes_with :: "program \<Rightarrow> target list \<Rightarrow> nat \<Rightarrow> node list" where
  "all_nodes_with P calls F = concat (map (\<lambda>f. nodes (P ! f)) (all_functions_with P calls F))"

definition all_functions :: "program \<Rightarrow> nat \<Rightarrow> nat list" where
  "all_functions P F = all_functions_with P (all_internal_calls P F) F"

definition get_msg_sender_checks :: "program \<Rightarrow> nat \<Rightarrow> string list" where
  "get_msg_sender_checks P F = get_msg_sender_checks_with P (all_internal_calls P F) F"

text \<open>
  \<^verbatim>\<open>output\<close>, lines 138 to 140: the names of the written variables that have a truthy
  name.
\<close>

definition state_variables_written :: "state_variable list \<Rightarrow> string list" where
  "state_variables_written vs = map (\<lambda>v. the (var_name v)) (filter (\<lambda>v. truthy (var_name v)) vs)"

text \<open>
  The two sorted sequences of lines 145 and 146, before they are turned into text.
\<close>

definition writes :: "state_variable list \<Rightarrow> string list" where
  "writes vs = sort (state_variables_written vs)"

definition guards_with :: "program \<Rightarrow> target list \<Rightarrow> nat \<Rightarrow> string list" where
  "guards_with P calls F = sort (get_msg_sender_checks_with P calls F)"

definition guards :: "program \<Rightarrow> nat \<Rightarrow> string list" where
  "guards P F = sort (get_msg_sender_checks P F)"

text \<open>
  Lines 143 to 147: the row of one function.
\<close>

definition function_row_with :: "program \<Rightarrow> target list \<Rightarrow> nat \<Rightarrow> cell list" where
  "function_row_with P calls F =
     [PyStr (fn_name (P ! F)),
      PyStr (str_list (writes (all_state_variables_written (P ! F)))),
      PyStr (str_list (guards_with P calls F))]"

definition function_row :: "program \<Rightarrow> nat \<Rightarrow> cell list" where
  "function_row P F = function_row_with P (all_internal_calls P F) F"

text \<open>
  Lines 113 to 122: the row of one state variable.
\<close>

definition state_variable_row :: "state_variable \<Rightarrow> cell list" where
  "state_variable_row state_var =
    (let var_type = (case var_type state_var of Some s \<Rightarrow> PyStr s | None \<Rightarrow> PyStr ''Unknown'');
         visibility =
           (case visibility state_var of
              Attr (Some s) \<Rightarrow> PyStr s
            | Attr None \<Rightarrow> PyNone
            | Missing \<Rightarrow> PyStr ''Unknown'');
         location =
           (case location state_var of
              Attr l \<Rightarrow> if truthy l then PyStr (the l) else PyStr ''default''
            | Missing \<Rightarrow> PyStr ''default'')
     in [case var_name state_var of Some s \<Rightarrow> PyStr s | None \<Rightarrow> PyNone,
         var_type, visibility, location])"

text \<open>
  The loop of \<^verbatim>\<open>output\<close> over the contracts: for each contract its name, its
  state-variable rows and its function rows (the entry appended to \<^verbatim>\<open>export_data\<close>).
\<close>

definition export_entry :: "program \<Rightarrow> contract \<Rightarrow> string \<times> cell list list \<times> cell list list" where
  "export_entry P c =
     (contract_name c,
      map state_variable_row (state_variables c),
      map (function_row P) (contract_functions c))"

definition export_data :: "program \<Rightarrow> contract list \<Rightarrow> (string \<times> cell list list \<times> cell list list) list" where
  "export_data P cs = map (export_entry P) cs"

section \<open>The closure as the spec states it\<close>

text \<open>
  The internal-call edges between Function objects, and the Function objects behind a
  list of targets.
\<close>

definition calls_rel :: "program \<Rightarrow> (nat \<times> nat) set" where
  "calls_rel P = {(f, g). f < length P \<and> g < length P \<and> Function g \<in> set (internal_calls (P ! f))}"

definition targets :: "program \<Rightarrow> target list \<Rightarrow> nat set" where
  "targets P xs = {g. g < length P \<and> Function g \<in> set xs}"

text \<open>
  The program with every target that is not a Function object removed from the
  internal calls and the modifiers of each function.
\<close>

definition drop_unresolved :: "program \<Rightarrow> program" where
  "drop_unresolved P =
     map (\<lambda>f. f\<lparr>internal_calls := filter (is_Function P) (internal_calls f),
                modifiers := filter (is_Function P) (modifiers f)\<rparr>) P"

section \<open>Concrete programs\<close>

definition sender_check :: "bool \<Rightarrow> bool \<Rightarrow> node" where
  "sender_check is_if is_require =
     \<lparr>contains_if = is_if, contains_require_or_assert = is_require,
      solidity_variables_read = [SolidityVariable ''msg.sender''],
      expression = ''msg.sender == owner''\<rparr>"

definition balance_var :: state_variable where
  "balance_var = \<lparr>var_name = Some ''balance'', var_type = Some ''uint256'',
      visibility = Attr (Some ''internal''), location = Missing\<rparr>"

definition unnamed_var :: state_variable where
  "unnamed_var = \<lparr>var_name = None, var_type = None,
      visibility = Missing, location = Attr (Some [])\<rparr>"

text \<open>
  A variable with no name, no type and no location, whose \<^verbatim>\<open>visibility\<close> attribute
  is present and \<^verbatim>\<open>None\<close>.
\<close>

definition bare_var :: state_variable where
  "bare_var = \<lparr>var_name = None, var_type = None, visibility = Attr None, location = Attr None\<rparr>"

text \<open>
  A second variable named \<^verbatim>\<open>balance\<close>, declared in another contract of the
  inheritance chain.
\<close>

definition shadowed_var :: state_variable where
  "shadowed_var = \<lparr>var_name = Some ''balance'', var_type = Some ''int256'',
      visibility = Attr (Some ''public''), location = Missing\<rparr>"

text \<open>
  The contract \<^verbatim>\<open>Vault\<close> of the spec: \<^verbatim>\<open>withdraw\<close> (0) calls \<^verbatim>\<open>_check\<close> (1), which
  requires the caller to be the owner, and writes \<^verbatim>\<open>balance\<close>; \<^verbatim>\<open>donate\<close> (2) writes
  \<^verbatim>\<open>balance\<close> with no check.
\<close>

definition vault :: program where
  "vault =
    [\<lparr>fn_name = ''withdraw'', internal_calls = [Function 1, NotFunction], modifiers = [],
      nodes = [], all_state_variables_written = [balance_var]\<rparr>,
     \<lparr>fn_name = ''_check'', internal_calls = [], modifiers = [],
      nodes = [sender_check False True], all_state_variables_written = []\<rparr>,
     \<lparr>fn_name = ''donate'', internal_calls = [], modifiers = [],
      nodes = [], all_state_variables_written = [balance_var]\<rparr>]"

text \<open>
  One function whose body has a \<^verbatim>\<open>require\<close> and an \<^verbatim>\<open>if\<close> on the same condition.
\<close>

definition twice_checked :: program where
  "twice_checked =
    [\<lparr>fn_name = ''withdraw'', internal_calls = [], modifiers = [],
      nodes = [sender_check False True, sender_check True False],
      all_state_variables_written = []\<rparr>]"


text \<open>
  A function (0) with the modifier \<^verbatim>\<open>onlyOwner\<close> (1), whose body calls a helper (2).
\<close>

definition guarded :: program where
  "guarded =
    [\<lparr>fn_name = ''set'', internal_calls = [], modifiers = [Function 1],
      nodes = [], all_state_variables_written = []\<rparr>,
     \<lparr>fn_name = ''onlyOwner'', internal_calls = [Function 2], modifiers = [],
      nodes = [], all_state_variables_written = []\<rparr>,
     \<lparr>fn_name = ''_owner'', internal_calls = [], modifiers = [],
      nodes = [sender_check True False], all_state_variables_written = []\<rparr>]"

section \<open>Facts about the node scan\<close>

lemma checks_filter:
  "msg_sender_checks_of_nodes ns = map expression (filter qualifies ns)"
proof -
  have "qualifies = (\<lambda>n. (contains_if n \<or> contains_require_or_assert n) \<and>
      ''msg.sender'' \<in> set (map sv_name (solidity_variables_read n)))"
    by (rule ext) (simp add: qualifies_def)
  then show ?thesis
    by (simp add: msg_sender_checks_of_nodes_def conj_commute)
qed


lemma checks_with_nodes:
  "get_msg_sender_checks_with P calls F = msg_sender_checks_of_nodes (all_nodes_with P calls F)"
  by (simp add: get_msg_sender_checks_with_def all_nodes_with_def)

lemma set_all_nodes_with:
  "set (all_nodes_with P calls F) = {n. \<exists>g. g \<in> set (all_functions_with P calls F) \<and> n \<in> set (nodes (P ! g))}"
  by (auto simp add: all_nodes_with_def)

lemma count_list_mset: "count_list xs x = count (mset xs) x"
  by (induction xs) auto

lemma count_list_map_filter: "count_list (map f (filter p xs)) t = length (filter (\<lambda>x. p x \<and> f x = t) xs)"
  by (induction xs) auto

lemma mset_concat_map:
  "mset (concat (map f xs)) = (\<Sum>x\<in>#mset xs. mset (f x))"
  by (induction xs) auto

lemma mset_concat_map_cong:
  "mset xs = mset ys \<Longrightarrow> mset (concat (map f xs)) = mset (concat (map f ys))"
  by (simp add: mset_concat_map)

section \<open>Facts about the written names and the text of a list\<close>

lemma set_state_variables_written:
  "set (state_variables_written vs) = {s. s \<noteq> [] \<and> (\<exists>v. v \<in> set vs \<and> var_name v = Some s)}"
proof (intro set_eqI iffI)
  fix s assume "s \<in> set (state_variables_written vs)"
  then obtain v where v: "v \<in> set vs" "truthy (var_name v)" "s = the (var_name v)"
    by (auto simp add: state_variables_written_def)
  then show "s \<in> {s. s \<noteq> [] \<and> (\<exists>v. v \<in> set vs \<and> var_name v = Some s)}"
    by (cases "var_name v") auto
next
  fix s assume "s \<in> {s. s \<noteq> [] \<and> (\<exists>v. v \<in> set vs \<and> var_name v = Some s)}"
  then obtain v where v: "s \<noteq> []" "v \<in> set vs" "var_name v = Some s"
    by auto
  then have "v \<in> {v \<in> set vs. truthy (var_name v)}" and "s = the (var_name v)"
    by simp_all
  then have "s \<in> (\<lambda>v. the (var_name v)) ` {v \<in> set vs. truthy (var_name v)}"
    by (rule_tac image_eqI)
  then show "s \<in> set (state_variables_written vs)"
    by (simp add: state_variables_written_def)
qed

lemma count_list_state_variables_written:
  "count_list (state_variables_written vs) s
     = length (filter (\<lambda>v. var_name v = Some s \<and> s \<noteq> []) vs)"
proof -
  have "(truthy (var_name v) \<and> the (var_name v) = s) = (var_name v = Some s \<and> s \<noteq> [])"
    for v :: state_variable
    by (cases "var_name v") auto
  then have "filter (\<lambda>v. truthy (var_name v) \<and> the (var_name v) = s) vs
      = filter (\<lambda>v. var_name v = Some s \<and> s \<noteq> []) vs"
    by simp
  then show ?thesis
    by (simp add: state_variables_written_def count_list_map_filter)
qed

lemma str_list_Nil: "str_list [] = ''[]''"
  by (simp add: str_list_def)

section \<open>Facts about the walk over the call graph\<close>

lemma resolve_Some_iff: "resolve P c = Some g \<longleftrightarrow> c = Function g \<and> g < length P"
  by (cases c) auto

lemma resolve_None_iff: "resolve P c = None \<longleftrightarrow> (\<forall>g. c = Function g \<longrightarrow> \<not> g < length P)"
  by (cases c) auto

lemma targets_append: "targets P (xs @ ys) = targets P xs \<union> targets P ys"
  by (auto simp add: targets_def)

lemma targets_Cons_unresolved: "resolve P c = None \<Longrightarrow> targets P (c # xs) = targets P xs"
  by (auto simp add: targets_def resolve_None_iff)

lemma targets_Cons_resolved: "resolve P c = Some g \<Longrightarrow> targets P (c # xs) = insert g (targets P xs)"
  by (auto simp add: targets_def resolve_Some_iff)

lemma set_map_filter_resolve: "set (List.map_filter (resolve P) xs) = targets P xs"
proof (induction xs)
  case Nil
  show ?case by (simp add: targets_def)
next
  case (Cons c xs)
  show ?case
  proof (cases "resolve P c")
    case None
    then show ?thesis using Cons by (simp add: targets_Cons_unresolved)
  next
    case (Some g)
    then show ?thesis using Cons by (simp add: targets_Cons_resolved)
  qed
qed

lemma calls_rel_iff: "(f, g) \<in> calls_rel P \<longleftrightarrow> f < length P \<and> g \<in> targets P (internal_calls (P ! f))"
  by (auto simp add: calls_rel_def targets_def)

lemma closed_contains_reach:
  assumes start: "F \<in> E" and bound: "E \<subseteq> {..<length P}"
    and direct: "\<And>v. v \<in> E \<Longrightarrow> targets P (internal_calls (P ! v)) \<subseteq> T"
    and sub: "T \<subseteq> E"
    and r: "(F, g) \<in> (calls_rel P)\<^sup>+"
  shows "g \<in> T"
  using r
proof (induction rule: trancl_induct)
  case (base y)
  then show ?case
    using direct [OF start] by (auto simp add: calls_rel_iff)
next
  case (step y z)
  from step.IH sub have "y \<in> E" by auto
  from direct [OF this] step.hyps(2) show ?case
    by (auto simp add: calls_rel_iff)
qed

lemma explore_reach:
  assumes "F < length P"
    and "targets P vals \<subseteq> (calls_rel P)\<^sup>+ `` {F}"
    and "targets P todo \<subseteq> targets P vals"
    and "set explored \<subseteq> insert F ((calls_rel P)\<^sup>+ `` {F})"
    and "\<And>v. v \<in> set explored \<Longrightarrow> targets P (internal_calls (P ! v)) \<subseteq> targets P vals"
    and "targets P vals \<subseteq> set explored \<union> targets P todo"
    and "F \<in> set explored"
  shows "targets P (explore P todo explored vals) = (calls_rel P)\<^sup>+ `` {F}"
  using assms
proof (induction P todo explored vals rule: explore.induct)
  case (1 P explored vals)
  have bound: "set explored \<subseteq> {..<length P}"
  proof
    fix v assume "v \<in> set explored"
    with 1(4) have "v = F \<or> (F, v) \<in> (calls_rel P)\<^sup>+" by auto
    then show "v \<in> {..<length P}"
    proof
      assume "v = F" with 1(1) show ?thesis by simp
    next
      assume "(F, v) \<in> (calls_rel P)\<^sup>+"
      then show ?thesis
        by (cases rule: tranclE) (auto simp add: calls_rel_def)
    qed
  qed
  have sub: "targets P vals \<subseteq> set explored"
    using 1(6) by (simp add: targets_def)
  have "(calls_rel P)\<^sup>+ `` {F} \<subseteq> targets P vals"
  proof
    fix g assume "g \<in> (calls_rel P)\<^sup>+ `` {F}"
    then have "(F, g) \<in> (calls_rel P)\<^sup>+" by simp
    from closed_contains_reach [OF 1(7) bound 1(5) sub this]
    show "g \<in> targets P vals" .
  qed
  with 1(2) show ?case by auto
next
  case (2 P c todo explored vals)
  show ?case
  proof (cases "resolve P c")
    case None
    have "targets P (explore P todo explored vals) = (calls_rel P)\<^sup>+ `` {F}"
    proof (rule "2.IH"(1) [OF None 2(4) 2(5)])
      show "targets P todo \<subseteq> targets P vals"
        using 2(6) by (simp add: targets_Cons_unresolved [OF None])
      show "set explored \<subseteq> insert F ((calls_rel P)\<^sup>+ `` {F})" by (rule 2(7))
      show "\<And>v. v \<in> set explored \<Longrightarrow> targets P (internal_calls (P ! v)) \<subseteq> targets P vals"
        by (rule 2(8))
      show "targets P vals \<subseteq> set explored \<union> targets P todo"
        using 2(9) by (simp add: targets_Cons_unresolved [OF None])
      show "F \<in> set explored" by (rule 2(10))
    qed
    with None show ?thesis by simp
  next
    case (Some g)
    note tc = targets_Cons_resolved [OF Some]
    show ?thesis
    proof (cases "g \<in> set explored")
      case True
      have "targets P (explore P todo explored vals) = (calls_rel P)\<^sup>+ `` {F}"
      proof (rule "2.IH"(2) [OF Some True 2(4) 2(5)])
        show "targets P todo \<subseteq> targets P vals"
          using 2(6) by (auto simp add: tc)
        show "set explored \<subseteq> insert F ((calls_rel P)\<^sup>+ `` {F})" by (rule 2(7))
        show "\<And>v. v \<in> set explored \<Longrightarrow> targets P (internal_calls (P ! v)) \<subseteq> targets P vals"
          by (rule 2(8))
        show "targets P vals \<subseteq> set explored \<union> targets P todo"
          using 2(9) True by (auto simp add: tc)
        show "F \<in> set explored" by (rule 2(10))
      qed
      with Some True show ?thesis by simp
    next
      case False
      let ?new = "internal_calls (P ! g)"
      have g: "g < length P" using Some by (simp add: resolve_Some_iff)
      have reach_g: "(F, g) \<in> (calls_rel P)\<^sup>+"
        using 2(5) 2(6) by (auto simp add: tc)
      have new_reach: "targets P ?new \<subseteq> (calls_rel P)\<^sup>+ `` {F}"
      proof
        fix h assume "h \<in> targets P ?new"
        with g have "(g, h) \<in> calls_rel P" by (simp add: calls_rel_iff)
        with reach_g show "h \<in> (calls_rel P)\<^sup>+ `` {F}" by auto
      qed
      have "targets P (explore P (todo @ ?new) (g # explored) (vals @ ?new)) = (calls_rel P)\<^sup>+ `` {F}"
      proof (rule "2.IH"(3) [OF Some False 2(4)])
        show "targets P (vals @ ?new) \<subseteq> (calls_rel P)\<^sup>+ `` {F}"
          using 2(5) new_reach by (simp add: targets_append)
        show "targets P (todo @ ?new) \<subseteq> targets P (vals @ ?new)"
          using 2(6) by (auto simp add: targets_append tc)
        show "set (g # explored) \<subseteq> insert F ((calls_rel P)\<^sup>+ `` {F})"
          using 2(7) reach_g by auto
        show "\<And>v. v \<in> set (g # explored) \<Longrightarrow> targets P (internal_calls (P ! v)) \<subseteq> targets P (vals @ ?new)"
          using 2(8) by (auto simp add: targets_append)
        show "targets P (vals @ ?new) \<subseteq> set (g # explored) \<union> targets P (todo @ ?new)"
          using 2(9) by (auto simp add: targets_append tc)
        show "F \<in> set (g # explored)" using 2(10) by simp
      qed
      with Some False show ?thesis by simp
    qed
  qed
qed

lemma targets_all_internal_calls:
  assumes "F < length P"
  shows "targets P (all_internal_calls P F) = (calls_rel P)\<^sup>+ `` {F}"
  unfolding all_internal_calls_def
proof (rule explore_reach [OF assms])
  show "targets P (internal_calls (P ! F)) \<subseteq> (calls_rel P)\<^sup>+ `` {F}"
    using assms by (auto simp add: calls_rel_iff)
qed auto

lemma all_internal_calls_leaf:
  "internal_calls (P ! F) = [] \<Longrightarrow> all_internal_calls P F = []"
  by (simp add: all_internal_calls_def)


lemma length_drop_unresolved: "length (drop_unresolved P) = length P"
  by (simp add: drop_unresolved_def)

lemma resolve_drop_unresolved: "resolve (drop_unresolved P) c = resolve P c"
  by (cases c) (simp_all add: length_drop_unresolved)

lemma internal_calls_drop_unresolved:
  "g < length P \<Longrightarrow>
    internal_calls (drop_unresolved P ! g) = filter (is_Function P) (internal_calls (P ! g))"
  by (simp add: drop_unresolved_def)

lemma modifiers_drop_unresolved:
  "g < length P \<Longrightarrow>
    modifiers (drop_unresolved P ! g) = filter (is_Function P) (modifiers (P ! g))"
  by (simp add: drop_unresolved_def)

lemma nodes_drop_unresolved:
  "g < length P \<Longrightarrow> nodes (drop_unresolved P ! g) = nodes (P ! g)"
  by (simp add: drop_unresolved_def)

lemma map_filter_resolve_filter:
  "List.map_filter (resolve P) (filter (is_Function P) xs) = List.map_filter (resolve P) xs"
  by (induction xs) (auto simp add: is_Function_def)

lemma explore_drop_unresolved:
  "explore (drop_unresolved P) (filter (is_Function P) todo) explored (filter (is_Function P) vals)
     = filter (is_Function P) (explore P todo explored vals)"
proof (induction P todo explored vals rule: explore.induct)
  case (1 P explored vals)
  show ?case by simp
next
  case (2 P c todo explored vals)
  show ?case
  proof (cases "resolve P c")
    case None
    then have "\<not> is_Function P c" by (simp add: is_Function_def)
    with None "2.IH"(1) show ?thesis by simp
  next
    case (Some g)
    then have f: "is_Function P c" by (simp add: is_Function_def)
    from Some have g: "g < length P" by (simp add: resolve_Some_iff)
    show ?thesis
    proof (cases "g \<in> set explored")
      case True
      with Some f "2.IH"(2) show ?thesis
        by (simp add: resolve_drop_unresolved)
    next
      case False
      with Some f g "2.IH"(3) show ?thesis
        by (simp add: resolve_drop_unresolved internal_calls_drop_unresolved)
    qed
  qed
qed

lemma all_internal_calls_drop_unresolved:
  assumes "F < length P"
  shows "all_internal_calls (drop_unresolved P) F = filter (is_Function P) (all_internal_calls P F)"
proof -
  have "all_internal_calls (drop_unresolved P) F =
      explore (drop_unresolved P) (filter (is_Function P) (internal_calls (P ! F))) [F]
        (filter (is_Function P) (internal_calls (P ! F)))"
    using assms by (simp add: all_internal_calls_def internal_calls_drop_unresolved)
  then show ?thesis
    by (simp add: explore_drop_unresolved all_internal_calls_def)
qed

section \<open>The scenario of the spec\<close>

text \<open>
  The rows of \<^verbatim>\<open>withdraw\<close> and \<^verbatim>\<open>donate\<close> of the contract \<^verbatim>\<open>Vault\<close>:
  both write \<^verbatim>\<open>balance\<close>; \<^verbatim>\<open>withdraw\<close> is guarded through \<^verbatim>\<open>_check\<close>
  and \<^verbatim>\<open>donate\<close> has no guard.
\<close>

lemma vault_withdraw_row:
  "function_row vault 0 =
     [PyStr ''withdraw'',
      PyStr (''['' @ [CHR 0x27] @ ''balance'' @ [CHR 0x27] @ '']''),
      PyStr (''['' @ [CHR 0x27] @ ''msg.sender == owner'' @ [CHR 0x27] @ '']'')]"
  by (simp add: function_row_def function_row_with_def guards_with_def writes_def
      state_variables_written_def get_msg_sender_checks_with_def msg_sender_checks_of_nodes_def
      all_functions_with_def all_internal_calls_def vault_def sender_check_def balance_var_def
      str_list_def repr_def repr_quote_def repr_char_def printable_def)

lemma vault_donate_row:
  "function_row vault 2 =
     [PyStr ''donate'',
      PyStr (''['' @ [CHR 0x27] @ ''balance'' @ [CHR 0x27] @ '']''),
      PyStr ''[]'']"
  by (simp add: function_row_def function_row_with_def guards_with_def writes_def
      state_variables_written_def get_msg_sender_checks_with_def msg_sender_checks_of_nodes_def
      all_functions_with_def all_internal_calls_def vault_def sender_check_def balance_var_def
      str_list_def repr_def repr_quote_def repr_char_def printable_def)

section \<open>The guard sequence\<close>

text \<open>
  Claim C4. A node contributes to the guard sequence exactly when it is conditional
  (\<^verbatim>\<open>contains_if\<close> or \<^verbatim>\<open>contains_require_or_assert\<close>) and its
  \<^verbatim>\<open>solidity_variables_read\<close> has a variable named \<^verbatim>\<open>msg.sender\<close>. Node by node:
  in the scan of a node list, such a node adds its expression text at its place and any
  other node adds nothing. For the sequence of a function: a text is in it exactly when
  some node of some function of \<^verbatim>\<open>all_functions\<close> is conditional, reads
  \<^verbatim>\<open>msg.sender\<close> and renders as that text. This holds whatever
  \<^verbatim>\<open>all_internal_calls()\<close> returns.
\<close>

theorem guard_filtering:
  "msg_sender_checks_of_nodes (before @ n # after) =
     msg_sender_checks_of_nodes before
     @ (if (contains_if n \<or> contains_require_or_assert n)
           \<and> ''msg.sender'' \<in> set (map sv_name (solidity_variables_read n))
        then [expression n] else [])
     @ msg_sender_checks_of_nodes after
   \<and> (t \<in> set (guards_with P calls F)) =
     (\<exists>g n. g \<in> set (all_functions_with P calls F) \<and> n \<in> set (nodes (P ! g))
        \<and> (contains_if n \<or> contains_require_or_assert n)
        \<and> ''msg.sender'' \<in> set (map sv_name (solidity_variables_read n))
        \<and> expression n = t)"
proof -
  have node: "msg_sender_checks_of_nodes (before @ n # after) =
     msg_sender_checks_of_nodes before
     @ (if (contains_if n \<or> contains_require_or_assert n)
           \<and> ''msg.sender'' \<in> set (map sv_name (solidity_variables_read n))
        then [expression n] else [])
     @ msg_sender_checks_of_nodes after"
    by (simp add: checks_filter qualifies_def)
  have "(t \<in> set (guards_with P calls F)) =
      (\<exists>n. n \<in> set (all_nodes_with P calls F) \<and> qualifies n \<and> expression n = t)"
    by (auto simp add: guards_with_def checks_with_nodes checks_filter)
  also have "\<dots> = (\<exists>g n. g \<in> set (all_functions_with P calls F) \<and> n \<in> set (nodes (P ! g))
        \<and> (contains_if n \<or> contains_require_or_assert n)
        \<and> ''msg.sender'' \<in> set (map sv_name (solidity_variables_read n))
        \<and> expression n = t)"
    unfolding set_all_nodes_with qualifies_def by blast
  finally show ?thesis
    using node by simp
qed

text \<open>
  Claim C1, as amended. The guard sequence emitted for a function is sorted, and it is
  not deduplicated: a text occurs in it as many times as there are entries of the
  flattened node list \<^verbatim>\<open>all_nodes\<close> that are conditional, read \<^verbatim>\<open>msg.sender\<close> and
  render as that text. This holds whatever \<^verbatim>\<open>all_internal_calls()\<close> returns.
\<close>

theorem guards_sorted_one_entry_per_node:
  "sorted (guards_with P calls F) \<and>
   count_list (guards_with P calls F) t =
     length (filter (\<lambda>n. (contains_if n \<or> contains_require_or_assert n)
        \<and> ''msg.sender'' \<in> set (map sv_name (solidity_variables_read n))
        \<and> expression n = t) (all_nodes_with P calls F))"
proof -
  have "count_list (guards_with P calls F) t = count_list (get_msg_sender_checks_with P calls F) t"
    by (simp add: guards_with_def count_list_mset)
  also have "\<dots> = length (filter (\<lambda>n. qualifies n \<and> expression n = t) (all_nodes_with P calls F))"
    by (simp add: checks_with_nodes checks_filter count_list_map_filter)
  finally show ?thesis
    by (simp add: guards_with_def qualifies_def)
qed

text \<open>
  Claim C1, as stated, fails: \<^verbatim>\<open>withdraw\<close> of \<open>twice_checked\<close> has a
  \<^verbatim>\<open>require\<close> and an \<^verbatim>\<open>if\<close> that render the same text, and the text is emitted
  twice.
\<close>

theorem guards_duplicate_counterexample:
  "guards twice_checked 0 = [''msg.sender == owner'', ''msg.sender == owner'']
   \<and> \<not> distinct (guards twice_checked 0)"
  by (simp add: guards_def get_msg_sender_checks_def get_msg_sender_checks_with_def
      msg_sender_checks_of_nodes_def all_functions_with_def all_internal_calls_def
      twice_checked_def sender_check_def)

section \<open>Determinism\<close>

text \<open>
  Claim C9. The two sorted sequences depend on the input only, and not on the order in
  which the two queries list their results: if \<^verbatim>\<open>all_state_variables_written()\<close> and
  \<^verbatim>\<open>all_internal_calls()\<close> return the same items in another order, \<open>writes\<close> and
  the guard sequence are the same sequences.
\<close>

theorem sorted_sequences_deterministic:
  assumes "mset vs' = mset vs" and "mset calls' = mset calls"
  shows "writes vs' = writes vs \<and> guards_with P calls' F = guards_with P calls F"
proof -
  have "mset (state_variables_written vs') = mset (state_variables_written vs)"
    using assms(1) by (simp add: state_variables_written_def)
  then have w: "writes vs' = writes vs"
    unfolding writes_def by (intro properties_for_sort) simp_all
  have "mset (List.map_filter (resolve P) calls') = mset (List.map_filter (resolve P) calls)"
    using assms(2) by (simp add: List.map_filter_def)
  then have "mset (all_functions_with P calls' F) = mset (all_functions_with P calls F)"
    by (simp add: all_functions_with_def)
  then have "mset (all_nodes_with P calls' F) = mset (all_nodes_with P calls F)"
    unfolding all_nodes_with_def by (rule mset_concat_map_cong)
  then have "mset (get_msg_sender_checks_with P calls' F) = mset (get_msg_sender_checks_with P calls F)"
    by (simp add: checks_with_nodes checks_filter)
  then have "guards_with P calls' F = guards_with P calls F"
    unfolding guards_with_def by (intro properties_for_sort) simp_all
  with w show ?thesis by simp
qed

theorem sorted_sequences_deterministic_witness:
  "mset [unnamed_var, balance_var] = mset [balance_var, unnamed_var]
   \<and> mset [NotFunction, Function 1] = mset [Function 1, NotFunction]
   \<and> writes [unnamed_var, balance_var] = writes [balance_var, unnamed_var]
   \<and> guards_with vault [NotFunction, Function 1] 0 = guards_with vault [Function 1, NotFunction] 0"
proof -
  have v: "mset [unnamed_var, balance_var] = mset [balance_var, unnamed_var]"
    by (simp add: add.commute)
  have c: "mset [NotFunction, Function 1] = mset [Function 1, NotFunction]"
    by (simp add: add.commute)
  from sorted_sequences_deterministic [OF v c, of vault 0] v c show ?thesis
    by blast
qed

section \<open>The closure\<close>

text \<open>
  Claim C2. For a function \<open>F\<close> of the program, the functions of
  \<^verbatim>\<open>all_functions\<close> are exactly \<open>F\<close> itself, every function reached from \<open>F\<close>
  through one or more internal-call edges, and every Function object among the modifiers
  of \<open>F\<close>; what a modifier calls is not followed.
\<close>

theorem closure_exact:
  assumes "F < length P"
  shows "set (all_functions P F) =
    {F} \<union> {g. (F, g) \<in> (calls_rel P)\<^sup>+} \<union> {m. m < length P \<and> Function m \<in> set (modifiers (P ! F))}"
proof -
  have "set (all_functions P F) = targets P (all_internal_calls P F) \<union> {F} \<union> targets P (modifiers (P ! F))"
    by (simp add: all_functions_def all_functions_with_def set_map_filter_resolve Un_commute Un_left_commute)
  also have "targets P (all_internal_calls P F) = {g. (F, g) \<in> (calls_rel P)\<^sup>+}"
    using targets_all_internal_calls [OF assms] by auto
  finally show ?thesis
    by (auto simp add: targets_def)
qed

theorem closure_exact_witness:
  "(0::nat) < length guarded
   \<and> set (all_functions guarded 0) =
       {0} \<union> {g. (0, g) \<in> (calls_rel guarded)\<^sup>+}
       \<union> {m. m < length guarded \<and> Function m \<in> set (modifiers (guarded ! 0))}
   \<and> all_functions guarded 0 = [0, 1]"
proof -
  have h: "(0::nat) < length guarded"
    by (simp add: guarded_def)
  have l: "all_functions guarded 0 = [0, 1]"
    by (simp add: all_functions_def all_functions_with_def all_internal_calls_def guarded_def)
  from closure_exact [OF h] h l show ?thesis
    by blast
qed

text \<open>
  Claim C6. A function with no internal calls and no modifiers has itself as its whole
  closure: \<^verbatim>\<open>all_functions\<close> is the one-element list of the function.
\<close>

theorem closure_of_leaf:
  assumes "internal_calls (P ! F) = []" and "modifiers (P ! F) = []"
  shows "all_functions P F = [F] \<and> set (all_functions P F) = {F}"
  using assms by (simp add: all_functions_def all_functions_with_def all_internal_calls_leaf)

theorem closure_of_leaf_witness:
  "internal_calls (vault ! 2) = [] \<and> modifiers (vault ! 2) = []
   \<and> all_functions vault 2 = [2] \<and> set (all_functions vault 2) = {2}"
proof -
  have a: "internal_calls (vault ! 2) = []" by (simp add: vault_def)
  have b: "modifiers (vault ! 2) = []" by (simp add: vault_def)
  from closure_of_leaf [OF a b] a b show ?thesis by blast
qed




text \<open>
  Claim C7. A target that is not a Function object, among the internal calls met by the
  walk or among the modifiers, is left out of the closure and changes nothing else: the
  list \<^verbatim>\<open>all_functions\<close> and the guard list are the same as for the program with all
  such targets removed, and every member of the list is a function of the program. The
  model has no error result: the computation is total.
\<close>

theorem unresolved_targets_omitted:
  assumes "F < length P"
  shows "all_functions (drop_unresolved P) F = all_functions P F
    \<and> get_msg_sender_checks (drop_unresolved P) F = get_msg_sender_checks P F
    \<and> (\<forall>g\<in>set (all_functions P F). g < length P)"
proof -
  have res: "resolve (drop_unresolved P) = resolve P"
    by (rule ext) (rule resolve_drop_unresolved)
  have a: "all_functions (drop_unresolved P) F = all_functions P F"
    using assms
    by (simp add: all_functions_def all_functions_with_def res all_internal_calls_drop_unresolved
        modifiers_drop_unresolved map_filter_resolve_filter)
  have b: "\<forall>g\<in>set (all_functions P F). g < length P"
    using assms
    by (auto simp add: all_functions_def all_functions_with_def set_map_filter_resolve targets_def)
  have m: "map (\<lambda>f. nodes (drop_unresolved P ! f)) (all_functions P F)
      = map (\<lambda>f. nodes (P ! f)) (all_functions P F)"
    using b by (simp add: nodes_drop_unresolved)
  have unfold: "get_msg_sender_checks Q F =
      msg_sender_checks_of_nodes (concat (map (\<lambda>f. nodes (Q ! f)) (all_functions Q F)))" for Q
    by (simp add: get_msg_sender_checks_def get_msg_sender_checks_with_def all_functions_def)
  have c: "get_msg_sender_checks (drop_unresolved P) F = get_msg_sender_checks P F"
    unfolding unfold a m ..
  from a b c show ?thesis by blast
qed

theorem unresolved_targets_omitted_witness:
  "(0::nat) < length vault
   \<and> NotFunction \<in> set (internal_calls (vault ! 0))
   \<and> all_functions vault 0 = [1, 0]
   \<and> all_functions (drop_unresolved vault) 0 = all_functions vault 0
   \<and> get_msg_sender_checks (drop_unresolved vault) 0 = get_msg_sender_checks vault 0"
proof -
  have h: "(0::nat) < length vault" by (simp add: vault_def)
  have n: "NotFunction \<in> set (internal_calls (vault ! 0))" by (simp add: vault_def)
  have l: "all_functions vault 0 = [1, 0]"
    by (simp add: all_functions_def all_functions_with_def all_internal_calls_def vault_def)
  from unresolved_targets_omitted [OF h] h n l show ?thesis by blast
qed

section \<open>The written names\<close>

text \<open>
  Claim C5, as amended. \<open>writes\<close> is the sorted sequence of the truthy names of the
  variables returned by \<^verbatim>\<open>all_state_variables_written()\<close>: variables whose name is
  \<^verbatim>\<open>None\<close> or empty are left out, and there is one entry for each remaining variable:
  a name occurs in the sequence as many times as there are returned variables with that
  name. The names are not deduplicated; the sequence has no duplicates when the returned named
  variables have pairwise different names. A function writing one named variable and one
  unnamed location yields the named one only.
\<close>

theorem writes_sorted_named:
  "sorted (writes vs)
   \<and> set (writes vs) = {s. s \<noteq> [] \<and> (\<exists>v. v \<in> set vs \<and> var_name v = Some s)}
   \<and> length (writes vs) = length (filter (\<lambda>v. truthy (var_name v)) vs)
   \<and> (distinct (map var_name (filter (\<lambda>v. truthy (var_name v)) vs)) \<longrightarrow> distinct (writes vs))
   \<and> (var_name v = Some s \<and> s \<noteq> [] \<and> \<not> truthy (var_name w) \<longrightarrow> writes [v, w] = [s])
   \<and> count_list (writes vs) t = length (filter (\<lambda>v. var_name v = Some t \<and> t \<noteq> []) vs)"
proof -
  have c: "count_list (writes vs) t = length (filter (\<lambda>v. var_name v = Some t \<and> t \<noteq> []) vs)"
  proof -
    have "count_list (writes vs) t = count_list (state_variables_written vs) t"
      by (simp add: writes_def count_list_mset)
    then show ?thesis
      by (simp add: count_list_state_variables_written)
  qed
  have d: "distinct (writes vs)" if "distinct (map var_name (filter (\<lambda>v. truthy (var_name v)) vs))"
  proof -
    have "inj_on the (set (map var_name (filter (\<lambda>v. truthy (var_name v)) vs)))"
    proof (rule inj_onI)
      fix x y
      assume x: "x \<in> set (map var_name (filter (\<lambda>v. truthy (var_name v)) vs))"
        and y: "y \<in> set (map var_name (filter (\<lambda>v. truthy (var_name v)) vs))"
        and eq: "the x = the y"
      from x y have "truthy x" "truthy y" by auto
      then obtain a b where "x = Some a" "y = Some b"
        by (cases x; cases y) auto
      with eq show "x = y" by simp
    qed
    with that have "distinct (map the (map var_name (filter (\<lambda>v. truthy (var_name v)) vs)))"
      by (simp only: distinct_map)
    then show ?thesis
      by (simp add: writes_def state_variables_written_def comp_def)
  qed
  have "set (writes vs) = {s. s \<noteq> [] \<and> (\<exists>v. v \<in> set vs \<and> var_name v = Some s)}"
    by (simp add: writes_def set_state_variables_written)
  moreover have "sorted (writes vs)" "length (writes vs) = length (filter (\<lambda>v. truthy (var_name v)) vs)"
    by (simp_all add: writes_def state_variables_written_def)
  moreover have "var_name v = Some s \<and> s \<noteq> [] \<and> \<not> truthy (var_name w) \<longrightarrow> writes [v, w] = [s]"
    by (simp add: writes_def state_variables_written_def)
  ultimately show ?thesis using c d by blast
qed

theorem writes_sorted_named_witness:
  "distinct (map var_name (filter (\<lambda>v. truthy (var_name v)) [balance_var, unnamed_var]))
   \<and> var_name balance_var = Some ''balance'' \<and> ''balance'' \<noteq> [] \<and> \<not> truthy (var_name unnamed_var)
   \<and> distinct (writes [balance_var, unnamed_var])
   \<and> writes [balance_var, unnamed_var] = [''balance'']"
proof -
  have a: "distinct (map var_name (filter (\<lambda>v. truthy (var_name v)) [balance_var, unnamed_var]))"
    by (simp add: balance_var_def unnamed_var_def)
  have b: "var_name balance_var = Some ''balance'' \<and> ''balance'' \<noteq> [] \<and> \<not> truthy (var_name unnamed_var)"
    by (simp add: balance_var_def unnamed_var_def)
  from writes_sorted_named [of "[balance_var, unnamed_var]" balance_var "''balance''" unnamed_var] a b
  show ?thesis by blast
qed

text \<open>
  Claim C5, as stated, fails: two different variables with the same name give the name
  twice.
\<close>

theorem writes_duplicate_counterexample:
  "writes [balance_var, shadowed_var] = [''balance'', ''balance'']
   \<and> \<not> distinct (writes [balance_var, shadowed_var])"
  by (simp add: writes_def state_variables_written_def balance_var_def shadowed_var_def)

section \<open>The rows\<close>

text \<open>
  Claim C8. For a function with no written state variable and with no conditional node
  reading \<^verbatim>\<open>msg.sender\<close> in its closure, the emitted row has the function name and
  two cells holding the text \<^verbatim>\<open>[]\<close> of the empty list: both cells are present and
  neither is \<^verbatim>\<open>None\<close>. This holds whatever \<^verbatim>\<open>all_internal_calls()\<close> returns.
\<close>

theorem empty_row:
  assumes "all_state_variables_written (P ! F) = []"
    and "\<forall>n\<in>set (all_nodes_with P calls F).
          \<not> ((contains_if n \<or> contains_require_or_assert n)
             \<and> ''msg.sender'' \<in> set (map sv_name (solidity_variables_read n)))"
  shows "function_row_with P calls F = [PyStr (fn_name (P ! F)), PyStr ''[]'', PyStr ''[]'']"
proof -
  have "filter qualifies (all_nodes_with P calls F) = []"
    using assms(2) by (simp add: filter_empty_conv qualifies_def)
  then have "guards_with P calls F = []"
    by (simp add: guards_with_def checks_with_nodes checks_filter)
  moreover have "writes (all_state_variables_written (P ! F)) = []"
    using assms(1) by (simp add: writes_def state_variables_written_def)
  ultimately show ?thesis
    by (simp add: function_row_with_def str_list_Nil)
qed

theorem empty_row_witness:
  "all_state_variables_written (guarded ! 0) = []
   \<and> all_nodes_with guarded (all_internal_calls guarded 0) 0 = []
   \<and> function_row guarded 0 = [PyStr ''set'', PyStr ''[]'', PyStr ''[]'']"
proof -
  have a: "all_state_variables_written (guarded ! 0) = []"
    by (simp add: guarded_def)
  have n: "all_nodes_with guarded (all_internal_calls guarded 0) 0 = []"
    by (simp add: all_nodes_with_def all_functions_with_def all_internal_calls_def guarded_def)
  have b: "\<forall>n\<in>set (all_nodes_with guarded (all_internal_calls guarded 0) 0).
          \<not> ((contains_if n \<or> contains_require_or_assert n)
             \<and> ''msg.sender'' \<in> set (map sv_name (solidity_variables_read n)))"
    unfolding n by simp
  have c: "fn_name (guarded ! 0) = ''set''"
    by (simp add: guarded_def)
  from empty_row [OF a b] a n c show ?thesis
    by (simp add: function_row_def)
qed

text \<open>
  Claim C10, as amended. The row of a state variable always has four cells, and there is
  one row for each state variable of the contract. A falsy type gives \<^verbatim>\<open>Unknown\<close>, a
  missing \<^verbatim>\<open>visibility\<close> attribute gives \<^verbatim>\<open>Unknown\<close>, and a missing, \<^verbatim>\<open>None\<close>
  or empty \<^verbatim>\<open>location\<close> gives \<^verbatim>\<open>default\<close>. The type cell is always a string and
  the location cell always a non-empty string. The name cell and the cell of a
  \<^verbatim>\<open>visibility\<close> attribute that is present hold the variable's own value, which may be
  \<^verbatim>\<open>None\<close>. The first conjunct gives the four cells exactly.
\<close>

theorem state_variable_row_placeholders:
  "state_variable_row v =
     [case var_name v of None \<Rightarrow> PyNone | Some s \<Rightarrow> PyStr s,
      PyStr (case var_type v of None \<Rightarrow> ''Unknown'' | Some s \<Rightarrow> s),
      case visibility v of
        Missing \<Rightarrow> PyStr ''Unknown'' | Attr None \<Rightarrow> PyNone | Attr (Some s) \<Rightarrow> PyStr s,
      PyStr (case location v of
        Missing \<Rightarrow> ''default'' | Attr None \<Rightarrow> ''default''
      | Attr (Some s) \<Rightarrow> if s = [] then ''default'' else s)]
   \<and> length (state_variable_row v) = 4
   \<and> length (fst (snd (export_entry P c))) = length (state_variables c)
   \<and> (var_type v = None \<longrightarrow> state_variable_row v ! 1 = PyStr ''Unknown'')
   \<and> (visibility v = Missing \<longrightarrow> state_variable_row v ! 2 = PyStr ''Unknown'')
   \<and> (location v = Missing \<or> location v = Attr None \<or> location v = Attr (Some [])
        \<longrightarrow> state_variable_row v ! 3 = PyStr ''default'')
   \<and> (\<exists>s. state_variable_row v ! 1 = PyStr s)
   \<and> (\<exists>s. s \<noteq> [] \<and> state_variable_row v ! 3 = PyStr s)"
proof -
  have l: "length (state_variable_row v) = 4"
    by (simp add: state_variable_row_def)
  have e: "length (fst (snd (export_entry P c))) = length (state_variables c)"
    by (simp add: export_entry_def)
  have t: "state_variable_row v ! 1 = (case var_type v of Some s \<Rightarrow> PyStr s | None \<Rightarrow> PyStr ''Unknown'')"
    by (simp add: state_variable_row_def)
  have vi: "visibility v = Missing \<longrightarrow> state_variable_row v ! 2 = PyStr ''Unknown''"
    by (simp add: state_variable_row_def numeral_2_eq_2)
  have lo: "state_variable_row v ! 3 =
      (case location v of Attr l \<Rightarrow> if truthy l then PyStr (the l) else PyStr ''default''
        | Missing \<Rightarrow> PyStr ''default'')"
    by (simp add: state_variable_row_def numeral_3_eq_3)
  have lo1: "location v = Missing \<or> location v = Attr None \<or> location v = Attr (Some [])
        \<longrightarrow> state_variable_row v ! 3 = PyStr ''default''"
    unfolding lo by auto
  have lo2: "\<exists>s. s \<noteq> [] \<and> state_variable_row v ! 3 = PyStr s"
  proof (cases "location v")
    case Missing
    then show ?thesis unfolding lo by simp
  next
    case (Attr l)
    then show ?thesis unfolding lo by (cases l) auto
  qed
  have t1: "var_type v = None \<longrightarrow> state_variable_row v ! 1 = PyStr ''Unknown''"
    unfolding t by simp
  have t2: "\<exists>s. state_variable_row v ! 1 = PyStr s"
    unfolding t by (cases "var_type v") auto
  have xt: "(case var_type v of Some s \<Rightarrow> PyStr s | None \<Rightarrow> PyStr ''Unknown'')
      = PyStr (case var_type v of None \<Rightarrow> ''Unknown'' | Some s \<Rightarrow> s)"
    by (cases "var_type v") simp_all
  have xlo: "(case location v of Attr l \<Rightarrow> if truthy l then PyStr (the l) else PyStr ''default''
        | Missing \<Rightarrow> PyStr ''default'')
      = PyStr (case location v of
        Missing \<Rightarrow> ''default'' | Attr None \<Rightarrow> ''default''
      | Attr (Some s) \<Rightarrow> if s = [] then ''default'' else s)"
  proof (cases "location v")
    case Missing
    then show ?thesis by simp
  next
    case (Attr l)
    then show ?thesis by (cases l) simp_all
  qed
  have x: "state_variable_row v =
     [case var_name v of None \<Rightarrow> PyNone | Some s \<Rightarrow> PyStr s,
      PyStr (case var_type v of None \<Rightarrow> ''Unknown'' | Some s \<Rightarrow> s),
      case visibility v of
        Missing \<Rightarrow> PyStr ''Unknown'' | Attr None \<Rightarrow> PyNone | Attr (Some s) \<Rightarrow> PyStr s,
      PyStr (case location v of
        Missing \<Rightarrow> ''default'' | Attr None \<Rightarrow> ''default''
      | Attr (Some s) \<Rightarrow> if s = [] then ''default'' else s)]"
    unfolding state_variable_row_def Let_def xt xlo ..
  from x l e t1 vi lo1 t2 lo2 show ?thesis by blast
qed

theorem state_variable_row_placeholders_witness:
  "var_type unnamed_var = None \<and> visibility unnamed_var = Missing
   \<and> location unnamed_var = Attr (Some [])
   \<and> state_variable_row unnamed_var ! 1 = PyStr ''Unknown''
   \<and> state_variable_row unnamed_var ! 2 = PyStr ''Unknown''
   \<and> state_variable_row unnamed_var ! 3 = PyStr ''default''"
proof -
  have a: "var_type unnamed_var = None \<and> visibility unnamed_var = Missing
     \<and> location unnamed_var = Attr (Some [])"
    by (simp add: unnamed_var_def)
  from state_variable_row_placeholders [of unnamed_var] a show ?thesis by blast
qed

text \<open>
  Claim C10, as stated, fails: for a variable whose name is \<^verbatim>\<open>None\<close> and whose
  \<^verbatim>\<open>visibility\<close> attribute is present and \<^verbatim>\<open>None\<close>, the name cell and the
  visibility cell of the row are \<^verbatim>\<open>None\<close>.
\<close>

theorem state_variable_row_counterexample:
  "state_variable_row bare_var = [PyNone, PyStr ''Unknown'', PyNone, PyStr ''default'']"
  by (simp add: state_variable_row_def bare_var_def)

end
